theory Spec2Isabelle
  imports Main "HOL-Library.Word"
begin

section \<open>Data model of the HAKO loader\<close>

text \<open>
  The repository holds two revisions of \<open>loader.c\<close>: the threaded loader
  (\<open>src/unnamed/part_002\<close>, mutex-guarded, with a VM thread) and the earlier
  single-threaded loader (\<open>src/unnamed/part_001\<close>). Unsuffixed constants model
  the threaded loader; constants ending in \<open>_p001\<close> model the earlier file.

  Pointers are modelled as options: \<open>None\<close> is \<open>NULL\<close>. A bytecode pointer and
  a function pointer are addresses (\<open>nat\<close>); a C string is a \<open>string\<close>.
\<close>

text \<open>The error codes the threaded loader returns (as negative values in C).\<close>

datatype errno = EINVAL | ENOMEM

text \<open>\<open>struct hako_bytecode_entry\<close> (loader.h); also the slot type of
  \<open>g_bytecode_registry\<close>, which has the same two fields.\<close>

record hako_bytecode_entry =
  bc_name :: "string option"
  bc_bytecode :: "nat option"

text \<open>\<open>struct hako_extension_entry\<close> (extension.h); \<open>priority\<close> is a \<open>uint8_t\<close>.\<close>

record hako_extension_entry =
  ext_name :: string
  ext_init :: "nat option"
  ext_priority :: "8 word"

definition MAX_BYTECODE_MODULES :: nat where
  "MAX_BYTECODE_MODULES = 32"

text \<open>
  The globals of \<open>loader.c\<close>, followed by the observable footprint of the external
  calls the loader makes: how often \<open>mrbc_init\<close> was run on the memory pool, the tasks
  created by \<open>mrbc_create_task\<close> (task handle, name given to \<open>mrbc_set_task_name\<close>,
  bytecode), how many threads \<open>k_thread_create\<close> started, and the catalog indices of
  the extension \<open>init\<close> callbacks that were called, in call order.
  \<open>g_bytecode_count\<close> is a \<open>size_t\<close> that is only incremented below
  \<open>MAX_BYTECODE_MODULES\<close>, so it is a \<open>nat\<close>.
\<close>

record hako_state =
  g_bytecode_registry :: "hako_bytecode_entry list"
  g_bytecode_count :: nat
  g_vm_initialized :: bool
  g_vm :: "nat option"
  g_vm_thread_started :: bool
  g_core_methods_registered :: bool
  mrbc_inits :: nat
  tasks :: "(nat \<times> string option \<times> nat) list"
  threads_created :: nat
  ext_calls :: "nat list"

text \<open>The zero-initialised statics at program start.\<close>

definition hako_boot :: hako_state where
  "hako_boot = \<lparr> g_bytecode_registry =
        replicate MAX_BYTECODE_MODULES \<lparr> bc_name = None, bc_bytecode = None \<rparr>,
      g_bytecode_count = 0, g_vm_initialized = False, g_vm = None,
      g_vm_thread_started = False, g_core_methods_registered = False,
      mrbc_inits = 0, tasks = [], threads_created = 0, ext_calls = [] \<rparr>"

section \<open>The module registry\<close>

text \<open>
  \<open>hako_find_bytecode_locked\<close>: the scan over slots \<open>0 .. g_bytecode_count - 1\<close>,
  returning the bytecode of the first slot whose name compares equal.
  (A slot below \<open>g_bytecode_count\<close> never has a \<open>NULL\<close> name, see
  \<open>load_loop\<close>; a \<open>NULL\<close> slot name is modelled as comparing unequal.)
\<close>

fun find_loop :: "hako_bytecode_entry list \<Rightarrow> string \<Rightarrow> nat option" where
  "find_loop [] n = None"
| "find_loop (e # es) n = (if bc_name e = Some n then bc_bytecode e else find_loop es n)"

text \<open>The slots in use: the first \<open>g_bytecode_count\<close> slots of the table.\<close>

definition live :: "hako_state \<Rightarrow> hako_bytecode_entry list" where
  "live s = take (g_bytecode_count s) (g_bytecode_registry s)"

definition hako_find_bytecode_locked :: "string option \<Rightarrow> hako_state \<Rightarrow> nat option" where
  "hako_find_bytecode_locked nm s =
     (case nm of None \<Rightarrow> None | Some n \<Rightarrow> find_loop (live s) n)"

text \<open>\<open>hako_find_bytecode\<close> takes the mutex around the scan; the earlier loader has
  the same scan without the mutex.\<close>

definition hako_find_bytecode :: "string option \<Rightarrow> hako_state \<Rightarrow> nat option" where
  "hako_find_bytecode nm s = hako_find_bytecode_locked nm s"

text \<open>
  The loop of \<open>hako_load_registry\<close> over \<open>registry[i]\<close>, \<open>i < count\<close>: it stops
  at a \<open>NULL\<close> name, skips an entry with \<open>NULL\<close> bytecode, appends while
  \<open>g_bytecode_count < MAX_BYTECODE_MODULES\<close> and otherwise returns \<open>-ENOMEM\<close>,
  keeping what was appended so far.
\<close>

fun load_loop :: "hako_bytecode_entry list \<Rightarrow> hako_state \<Rightarrow> (errno + unit) \<times> hako_state" where
  "load_loop [] s = (Inr (), s)"
| "load_loop (e # es) s =
     (case bc_name e of
        None \<Rightarrow> (Inr (), s)
      | Some n \<Rightarrow>
         (case bc_bytecode e of
            None \<Rightarrow> load_loop es s
          | Some b \<Rightarrow>
              if g_bytecode_count s < MAX_BYTECODE_MODULES
              then load_loop es
                     (s\<lparr> g_bytecode_registry := (g_bytecode_registry s)
                            [g_bytecode_count s := \<lparr> bc_name = Some n, bc_bytecode = Some b \<rparr>],
                         g_bytecode_count := g_bytecode_count s + 1 \<rparr>)
              else (Inl ENOMEM, s)))"

text \<open>
  \<open>hako_load_registry\<close>. The caller's array is \<open>NULL\<close>-terminated (loader.h), so
  the list holds the entries up to that terminator and the loop reads at most
  \<open>count\<close> of them.
\<close>

definition hako_load_registry ::
  "hako_bytecode_entry list option \<Rightarrow> nat \<Rightarrow> hako_state \<Rightarrow> (errno + unit) \<times> hako_state" where
  "hako_load_registry registry count s =
     (if \<not> g_vm_initialized s then (Inl EINVAL, s)
      else case registry of
             None \<Rightarrow> (Inl EINVAL, s)
           | Some r \<Rightarrow> load_loop (take count r) s)"

section \<open>Extension initialisation\<close>

text \<open>
  The catalog is the array between \<open>__hako_extensions_start\<close> and
  \<open>__hako_extensions_end\<close>, in link order. An \<open>init\<close> callback is external code;
  what the loader decides is which entries' callbacks are called and in which order,
  so a walk yields the list of catalog indices whose \<open>init\<close> was called.

  Threaded loader: one pass in catalog order calling \<open>ext->init()\<close> with no test of
  the pointer. Calling a \<open>NULL\<close> function pointer does not return; the fault
  carries the calls made before it.
\<close>

datatype ext_fault = NullCall "nat list"

fun ext_walk :: "hako_extension_entry list \<Rightarrow> nat \<Rightarrow> nat list \<Rightarrow> ext_fault + nat list" where
  "ext_walk [] i calls = Inr calls"
| "ext_walk (e # es) i calls =
     (case ext_init e of
        None \<Rightarrow> Inl (NullCall calls)
      | Some f \<Rightarrow> ext_walk es (Suc i) (calls @ [i]))"

definition hako_init_extensions :: "hako_extension_entry list \<Rightarrow> ext_fault + nat list" where
  "hako_init_extensions catalog = ext_walk catalog 0 []"

text \<open>
  Earlier loader: for each \<open>prio\<close> the inner loop calls the entries with
  \<open>ext->priority == prio && ext->init\<close>. The outer loop is
  \<open>for (uint8_t prio = 0; prio <= 255; prio++)\<close>: \<open>prio\<close> is an 8-bit word, the
  increment wraps, and the loop may not return, so it is a partial function.
\<close>

fun ext_pass :: "hako_extension_entry list \<Rightarrow> nat \<Rightarrow> 8 word \<Rightarrow> nat list" where
  "ext_pass [] i prio = []"
| "ext_pass (e # es) i prio =
     (if ext_priority e = prio \<and> ext_init e \<noteq> None
      then i # ext_pass es (Suc i) prio
      else ext_pass es (Suc i) prio)"

partial_function (option) prio_loop ::
  "hako_extension_entry list \<Rightarrow> 8 word \<Rightarrow> nat list \<Rightarrow> nat list option" where
  "prio_loop catalog prio calls =
     (if prio \<le> 255
      then prio_loop catalog (prio + 1) (calls @ ext_pass catalog 0 prio)
      else Some calls)"

definition hako_init_extensions_p001 :: "hako_extension_entry list \<Rightarrow> nat list option" where
  "hako_init_extensions_p001 catalog =
     (if length catalog = 0 then Some [] else prio_loop catalog 0 [])"

text \<open>The first \<open>k\<close> iterations of that outer loop, from \<open>(prio, calls)\<close>.\<close>

fun prio_iter :: "nat \<Rightarrow> hako_extension_entry list \<Rightarrow> 8 word \<times> nat list \<Rightarrow> 8 word \<times> nat list" where
  "prio_iter 0 catalog st = st"
| "prio_iter (Suc k) catalog (prio, calls) =
     (if prio \<le> 255
      then prio_iter k catalog (prio + 1, calls @ ext_pass catalog 0 prio)
      else (prio, calls))"

section \<open>Runtime state and the public operations\<close>

text \<open>\<open>hako_register_core_methods\<close>: re-defines methods inside the interpreter and
  sets its own guard flag; only the flag is loader state.\<close>

definition hako_register_core_methods :: "hako_state \<Rightarrow> hako_state" where
  "hako_register_core_methods s =
     (if g_core_methods_registered s then s else s\<lparr> g_core_methods_registered := True \<rparr>)"

text \<open>\<open>hako_init\<close> of the threaded loader. The call of \<open>hako_init_extensions\<close> is
  commented out in the source, so the catalog is not an argument.\<close>

definition hako_init :: "hako_state \<Rightarrow> (errno + unit) \<times> hako_state" where
  "hako_init s =
     (if g_vm_initialized s then (Inr (), s)
      else (Inr (), (hako_register_core_methods (s\<lparr> mrbc_inits := mrbc_inits s + 1 \<rparr>))
                      \<lparr> g_vm_initialized := True,
                        g_vm_thread_started := False,
                        g_bytecode_count := 0 \<rparr>))"

text \<open>
  \<open>hako_init\<close> of the earlier loader. \<open>vm\<close> is what \<open>mrbc_vm_open\<close> returns in this
  call. The result is \<open>None\<close> when the call does not return.
\<close>

definition hako_init_p001 ::
  "nat option \<Rightarrow> hako_extension_entry list \<Rightarrow> hako_state \<Rightarrow> ((errno + unit) \<times> hako_state) option" where
  "hako_init_p001 vm catalog s =
     (if g_vm_initialized s then Some (Inr (), s)
      else let s1 = s\<lparr> mrbc_inits := mrbc_inits s + 1, g_vm := vm \<rparr> in
        case vm of
          None \<Rightarrow> Some (Inl ENOMEM, s1)
        | Some v \<Rightarrow>
            (case hako_init_extensions_p001 catalog of
               None \<Rightarrow> None
             | Some calls \<Rightarrow>
                 Some (Inr (), s1\<lparr> g_vm_initialized := True, g_bytecode_count := 0,
                                   ext_calls := ext_calls s1 @ calls \<rparr>)))"

text \<open>
  \<open>hako_load_bytecode_locked\<close>. \<open>tcb\<close> is what \<open>mrbc_create_task\<close> returns in this
  call (\<open>None\<close>: allocation failed).
\<close>

definition hako_load_bytecode_locked ::
  "string option \<Rightarrow> nat \<Rightarrow> nat option \<Rightarrow> hako_state \<Rightarrow> (errno + unit) \<times> hako_state" where
  "hako_load_bytecode_locked nm bytecode tcb s =
     (case tcb of
        None \<Rightarrow> (Inl ENOMEM, s)
      | Some t \<Rightarrow>
          (Inr (), s\<lparr> tasks := tasks s @ [(t, nm, bytecode)],
                      g_vm := (if g_vm s = None then Some t else g_vm s) \<rparr>))"

definition hako_load_bytecode ::
  "string option \<Rightarrow> nat option \<Rightarrow> nat option \<Rightarrow> hako_state \<Rightarrow> (errno + unit) \<times> hako_state" where
  "hako_load_bytecode nm bytecode tcb s =
     (if \<not> g_vm_initialized s then (Inl EINVAL, s)
      else case bytecode of
             None \<Rightarrow> (Inl EINVAL, s)
           | Some b \<Rightarrow> hako_load_bytecode_locked nm b tcb s)"

text \<open>
  \<open>hako_start_vm_thread\<close>. \<open>k_thread_create\<close> starts \<open>hako_vm_thread\<close>, which loops
  forever on its own; the loader's part is the count of threads started.
\<close>

definition hako_start_vm_thread :: "nat option \<Rightarrow> hako_state \<Rightarrow> (errno + unit) \<times> hako_state" where
  "hako_start_vm_thread tcb s =
     (if \<not> g_vm_initialized s then (Inl EINVAL, s)
      else if g_vm_thread_started s then (Inr (), s)
      else
        let spawn = (\<lambda>s'. s'\<lparr> threads_created := threads_created s' + 1,
                              g_vm_thread_started := True \<rparr>) in
        case hako_find_bytecode_locked (Some ''main'') s of
          Some main_bytecode \<Rightarrow>
            (case hako_load_bytecode_locked (Some ''main'') main_bytecode tcb s of
               (Inl e, s') \<Rightarrow> (Inl e, s')
             | (Inr u, s') \<Rightarrow> (Inr (), spawn s'))
        | None \<Rightarrow> (Inr (), spawn s))"

definition hako_run :: "nat option \<Rightarrow> hako_state \<Rightarrow> (errno + unit) \<times> hako_state" where
  "hako_run tcb s = hako_start_vm_thread tcb s"

text \<open>
  \<open>later s s'\<close>: the public operations of the threaded loader, called any number of
  times with any arguments, lead from \<open>s\<close> to \<open>s'\<close>. \<open>hako_find_bytecode\<close> changes
  no state. A state is reachable when it is later than program start.
\<close>

inductive later :: "hako_state \<Rightarrow> hako_state \<Rightarrow> bool" where
  here: "later s s"
| init: "later s s' \<Longrightarrow> later s (snd (hako_init s'))"
| load_registry: "later s s' \<Longrightarrow> later s (snd (hako_load_registry registry count s'))"
| load_bytecode: "later s s' \<Longrightarrow> later s (snd (hako_load_bytecode nm bytecode tcb s'))"
| run: "later s s' \<Longrightarrow> later s (snd (hako_run tcb s'))"

definition reachable :: "hako_state \<Rightarrow> bool" where
  "reachable s = later hako_boot s"

section \<open>Auxiliary notions and example inputs\<close>

text \<open>The entries of a caller's array that the loop of \<open>hako_load_registry\<close> tries
  to append: those before the first \<open>NULL\<close> name whose bytecode is not \<open>NULL\<close>.\<close>

definition appended :: "hako_bytecode_entry list \<Rightarrow> hako_bytecode_entry list" where
  "appended es = filter (\<lambda>e. bc_bytecode e \<noteq> None) (takeWhile (\<lambda>e. bc_name e \<noteq> None) es)"

text \<open>A catalog with the priorities 50, 10, 90, 10 in link order, and the catalog
  holding only the \<open>zephyr_gpio\<close> extension (\<open>HAKO_EXTENSION_PRIORITY_DEFAULT\<close> is 50).\<close>

definition order_catalog :: "hako_extension_entry list" where
  "order_catalog =
     [\<lparr> ext_name = ''ext_a'', ext_init = Some 1, ext_priority = 50 \<rparr>,
      \<lparr> ext_name = ''ext_b'', ext_init = Some 2, ext_priority = 10 \<rparr>,
      \<lparr> ext_name = ''ext_c'', ext_init = Some 3, ext_priority = 90 \<rparr>,
      \<lparr> ext_name = ''ext_d'', ext_init = Some 4, ext_priority = 10 \<rparr>]"

definition gpio_catalog :: "hako_extension_entry list" where
  "gpio_catalog = [\<lparr> ext_name = ''zephyr_gpio'', ext_init = Some 1, ext_priority = 50 \<rparr>]"

text \<open>Example registries: two modules, and 33 modules named \<open>m\<close>, \<open>mm\<close>, \<open>mmm\<close>, ...\<close>

definition demo_batch :: "hako_bytecode_entry list" where
  "demo_batch = [\<lparr> bc_name = Some ''main'', bc_bytecode = Some 1 \<rparr>,
                 \<lparr> bc_name = Some ''utils'', bc_bytecode = Some 2 \<rparr>]"

definition full_batch :: "hako_bytecode_entry list" where
  "full_batch = map (\<lambda>i. \<lparr> bc_name = Some (replicate (Suc i) CHR ''m''),
                             bc_bytecode = Some (100 + i) \<rparr>) [0..<33]"

text \<open>The state after \<open>hako_init\<close> and registering \<open>demo_batch\<close>.\<close>

definition demo_state :: hako_state where
  "demo_state = snd (hako_load_registry (Some demo_batch) 2 (snd (hako_init hako_boot)))"

text \<open>The state after \<open>hako_init\<close> and registering \<open>full_batch\<close> in one call.\<close>

definition full_state :: hako_state where
  "full_state = snd (hako_load_registry (Some full_batch) 33 (snd (hako_init hako_boot)))"

text \<open>Two entries with the same name, and the state after registering them on top of
  \<open>demo_state\<close>.\<close>

definition dup_batch :: "hako_bytecode_entry list" where
  "dup_batch = [\<lparr> bc_name = Some ''util'', bc_bytecode = Some 5 \<rparr>,
                \<lparr> bc_name = Some ''util'', bc_bytecode = Some 6 \<rparr>]"

definition dup_state :: hako_state where
  "dup_state = snd (hako_load_registry (Some dup_batch) 2 demo_state)"

text \<open>The state after \<open>hako_init\<close> and a first \<open>hako_run\<close>, with nothing registered.\<close>

definition running_state :: hako_state where
  "running_state = snd (hako_run (Some 7) (snd (hako_init hako_boot)))"

section \<open>Facts about the registry loops\<close>

lemma take_Suc_update:
  "c < length reg \<Longrightarrow> take (Suc c) (reg[c := e]) = take c reg @ [e]"
  by (simp add: take_Suc_conv_app_nth)

lemma entry_eq:
  "bc_name e = Some n \<Longrightarrow> bc_bytecode e = Some b \<Longrightarrow>
   \<lparr> bc_name = Some n, bc_bytecode = Some b \<rparr> = (e :: hako_bytecode_entry)"
  by (cases e) simp

lemma appended_Cons:
  "appended (e # es) =
     (if bc_name e = None then []
      else if bc_bytecode e = None then appended es else e # appended es)"
  by (simp add: appended_def)

lemma appended_valid:
  "\<forall>e\<in>set es. bc_name e \<noteq> None \<and> bc_bytecode e \<noteq> None \<Longrightarrow> appended es = es"
  by (induction es) (auto simp: appended_def)

text \<open>The loop writes only the table and its count.\<close>

lemma load_loop_frame:
  "\<exists>reg c. snd (load_loop es s) = s\<lparr> g_bytecode_registry := reg, g_bytecode_count := c \<rparr>"
proof (induction es arbitrary: s)
  case Nil
  have "s = s\<lparr> g_bytecode_registry := g_bytecode_registry s,
               g_bytecode_count := g_bytecode_count s \<rparr>"
    by simp
  then show ?case by (metis load_loop.simps(1) snd_conv)
next
  case (Cons e es)
  have self: "\<exists>reg c. s = s\<lparr> g_bytecode_registry := reg, g_bytecode_count := c \<rparr>"
    by (rule exI[of _ "g_bytecode_registry s"], rule exI[of _ "g_bytecode_count s"]) simp
  show ?case
  proof (cases "bc_name e")
    case None
    then show ?thesis using self by simp
  next
    case (Some n)
    note nm = this
    show ?thesis
    proof (cases "bc_bytecode e")
      case None
      with nm Cons.IH[of s] show ?thesis by simp
    next
      case (Some b)
      show ?thesis
      proof (cases "g_bytecode_count s < MAX_BYTECODE_MODULES")
        case True
        let ?s1 = "s\<lparr> g_bytecode_registry := (g_bytecode_registry s)
                            [g_bytecode_count s := \<lparr> bc_name = Some n, bc_bytecode = Some b \<rparr>],
                         g_bytecode_count := g_bytecode_count s + 1 \<rparr>"
        from Cons.IH[of ?s1] obtain reg c where
          "snd (load_loop es ?s1) = ?s1\<lparr> g_bytecode_registry := reg, g_bytecode_count := c \<rparr>"
          by blast
        then have "snd (load_loop (e # es) s) =
                     s\<lparr> g_bytecode_registry := reg, g_bytecode_count := c \<rparr>"
          using nm Some True by simp
        then show ?thesis by blast
      next
        case False
        with nm Some self show ?thesis by simp
      qed
    qed
  qed
qed

text \<open>What the loop returns and leaves in the table, for a table of 32 slots.\<close>

lemma load_loop_spec:
  assumes "length (g_bytecode_registry s) = MAX_BYTECODE_MODULES"
      and "g_bytecode_count s \<le> MAX_BYTECODE_MODULES"
  shows "fst (load_loop es s) =
           (if g_bytecode_count s + length (appended es) \<le> MAX_BYTECODE_MODULES
            then Inr () else Inl ENOMEM)
       \<and> live (snd (load_loop es s)) =
           live s @ take (MAX_BYTECODE_MODULES - g_bytecode_count s) (appended es)
       \<and> g_bytecode_count (snd (load_loop es s)) =
           min MAX_BYTECODE_MODULES (g_bytecode_count s + length (appended es))
       \<and> length (g_bytecode_registry (snd (load_loop es s))) = MAX_BYTECODE_MODULES"
  using assms
proof (induction es arbitrary: s)
  case Nil
  then show ?case by (simp add: appended_def live_def)
next
  case (Cons e es)
  show ?case
  proof (cases "bc_name e")
    case None
    with Cons.prems show ?thesis by (simp add: appended_Cons live_def)
  next
    case (Some n)
    note nm = this
    show ?thesis
    proof (cases "bc_bytecode e")
      case None
      with nm Cons.IH[OF Cons.prems] show ?thesis by (simp add: appended_Cons)
    next
      case (Some b)
      note bc = this
      show ?thesis
      proof (cases "g_bytecode_count s < MAX_BYTECODE_MODULES")
        case False
        with Cons.prems have c: "g_bytecode_count s = MAX_BYTECODE_MODULES" by simp
        with nm bc Cons.prems show ?thesis by (simp add: appended_Cons live_def)
      next
        case True
        let ?s1 = "s\<lparr> g_bytecode_registry := (g_bytecode_registry s)[g_bytecode_count s := e],
                       g_bytecode_count := g_bytecode_count s + 1 \<rparr>"
        have l1: "length (g_bytecode_registry ?s1) = MAX_BYTECODE_MODULES"
          using Cons.prems by simp
        have c1: "g_bytecode_count ?s1 \<le> MAX_BYTECODE_MODULES" using True by simp
        have live1: "live ?s1 = live s @ [e]"
          using True Cons.prems by (simp add: live_def take_Suc_update)
        have step: "load_loop (e # es) s = load_loop es ?s1"
          using nm bc True by (simp add: entry_eq)
        from Cons.IH[OF l1 c1] live1 nm bc True show ?thesis
          unfolding step by (simp add: appended_Cons take_Cons')
      qed
    qed
  qed
qed

text \<open>The count never passes the capacity, whatever the table's length.\<close>

lemma load_loop_count_le:
  "g_bytecode_count s \<le> MAX_BYTECODE_MODULES \<Longrightarrow>
   g_bytecode_count (snd (load_loop es s)) \<le> MAX_BYTECODE_MODULES"
  by (induction es arbitrary: s) (auto split: option.splits)

lemma find_loop_append:
  "find_loop (xs @ ys) n =
     (if \<exists>e\<in>set xs. bc_name e = Some n then find_loop xs n else find_loop ys n)"
  by (induction xs) auto

lemma find_loop_absent:
  "\<forall>e\<in>set xs. bc_name e \<noteq> Some n \<Longrightarrow> find_loop xs n = None"
  by (induction xs) auto

lemma find_loop_distinct:
  "distinct (map bc_name xs) \<Longrightarrow> e \<in> set xs \<Longrightarrow> bc_name e = Some n \<Longrightarrow>
   find_loop xs n = bc_bytecode e"
proof (induction xs)
  case Nil
  then show ?case by simp
next
  case (Cons x xs)
  show ?case
  proof (cases "bc_name x = Some n")
    case True
    have "x = e"
    proof (rule ccontr)
      assume "x \<noteq> e"
      with Cons.prems(2) have "e \<in> set xs" by simp
      then have "bc_name e \<in> set (map bc_name xs)" by simp
      with Cons.prems(1,3) True show False by simp
    qed
    with True show ?thesis by simp
  next
    case False
    with Cons.prems have "e \<in> set xs" by auto
    with Cons False show ?thesis by simp
  qed
qed

section \<open>Facts about the operations on the table\<close>

lemma find_loop_append_Some:
  "find_loop xs n = Some b \<Longrightarrow> find_loop (xs @ ys) n = Some b"
  by (induction xs) (auto split: if_splits)

text \<open>The invariant of the table: 32 slots, count within them.\<close>

lemma hako_init_table:
  "length (g_bytecode_registry (snd (hako_init s))) = length (g_bytecode_registry s)"
  "g_bytecode_count (snd (hako_init s)) \<le> g_bytecode_count s"
  by (simp_all add: hako_init_def hako_register_core_methods_def)

lemma hako_load_bytecode_table:
  "g_bytecode_registry (snd (hako_load_bytecode nm bytecode tcb s)) = g_bytecode_registry s"
  "g_bytecode_count (snd (hako_load_bytecode nm bytecode tcb s)) = g_bytecode_count s"
  "g_vm_initialized (snd (hako_load_bytecode nm bytecode tcb s)) = g_vm_initialized s"
  by (simp_all add: hako_load_bytecode_def hako_load_bytecode_locked_def split: option.splits)

lemma hako_run_table:
  "g_bytecode_registry (snd (hako_run tcb s)) = g_bytecode_registry s"
  "g_bytecode_count (snd (hako_run tcb s)) = g_bytecode_count s"
  "g_vm_initialized (snd (hako_run tcb s)) = g_vm_initialized s"
  by (simp_all add: hako_run_def hako_start_vm_thread_def hako_load_bytecode_locked_def Let_def
        split: option.splits)

lemma hako_load_registry_count_le:
  "g_bytecode_count s \<le> MAX_BYTECODE_MODULES \<Longrightarrow>
   g_bytecode_count (snd (hako_load_registry registry count s)) \<le> MAX_BYTECODE_MODULES"
  by (simp add: hako_load_registry_def load_loop_count_le split: option.splits)

lemma hako_load_registry_initialized:
  "g_vm_initialized (snd (hako_load_registry registry count s)) = g_vm_initialized s"
proof (cases "g_vm_initialized s")
  case False
  then show ?thesis by (simp add: hako_load_registry_def)
next
  case True
  show ?thesis
  proof (cases registry)
    case None
    then show ?thesis by (simp add: hako_load_registry_def)
  next
    case (Some r)
    from load_loop_frame[of "take count r" s] obtain reg c where
      "snd (load_loop (take count r) s) = s\<lparr> g_bytecode_registry := reg, g_bytecode_count := c \<rparr>"
      by blast
    with True Some show ?thesis by (simp add: hako_load_registry_def)
  qed
qed

lemma hako_load_registry_length:
  assumes "length (g_bytecode_registry s) = MAX_BYTECODE_MODULES"
      and "g_bytecode_count s \<le> MAX_BYTECODE_MODULES"
  shows "length (g_bytecode_registry (snd (hako_load_registry registry count s))) =
           MAX_BYTECODE_MODULES"
proof (cases registry)
  case None
  with assms show ?thesis by (simp add: hako_load_registry_def)
next
  case (Some r)
  with assms(1) load_loop_spec[OF assms, of "take count r"] show ?thesis
    by (simp add: hako_load_registry_def)
qed

lemma later_table:
  assumes "later s s'"
      and "length (g_bytecode_registry s) = MAX_BYTECODE_MODULES"
      and "g_bytecode_count s \<le> MAX_BYTECODE_MODULES"
  shows "length (g_bytecode_registry s') = MAX_BYTECODE_MODULES
       \<and> g_bytecode_count s' \<le> MAX_BYTECODE_MODULES"
  using assms
proof (induction rule: later.induct)
  case (here s)
  then show ?case by simp
next
  case (init s s')
  then show ?case using hako_init_table[of s'] by simp
next
  case (load_registry s s' registry count)
  then show ?case
    using hako_load_registry_length[of s' registry count]
          hako_load_registry_count_le[of s' registry count] by simp
next
  case (load_bytecode s s' nm bytecode tcb)
  then show ?case by (simp add: hako_load_bytecode_table)
next
  case (run s s' tcb)
  then show ?case by (simp add: hako_run_table)
qed

lemma reachable_table:
  "reachable s \<Longrightarrow>
   length (g_bytecode_registry s) = MAX_BYTECODE_MODULES
   \<and> g_bytecode_count s \<le> MAX_BYTECODE_MODULES"
  unfolding reachable_def
  by (erule later_table) (simp_all add: hako_boot_def)

lemma load_registry_spec:
  assumes "g_vm_initialized s"
      and "length (g_bytecode_registry s) = MAX_BYTECODE_MODULES"
      and "g_bytecode_count s \<le> MAX_BYTECODE_MODULES"
  shows "fst (hako_load_registry (Some r) count s) =
           (if g_bytecode_count s + length (appended (take count r)) \<le> MAX_BYTECODE_MODULES
            then Inr () else Inl ENOMEM)"
    and "live (snd (hako_load_registry (Some r) count s)) =
           live s @ take (MAX_BYTECODE_MODULES - g_bytecode_count s) (appended (take count r))"
    and "g_bytecode_count (snd (hako_load_registry (Some r) count s)) =
           min MAX_BYTECODE_MODULES (g_bytecode_count s + length (appended (take count r)))"
    and "length (g_bytecode_registry (snd (hako_load_registry (Some r) count s))) =
           MAX_BYTECODE_MODULES"
  using assms(1) load_loop_spec[OF assms(2,3), of "take count r"]
  by (simp_all add: hako_load_registry_def)

text \<open>A name that is found stays found, with the same bytecode.\<close>

lemma later_find:
  assumes "later s s'"
      and "g_vm_initialized s"
      and "length (g_bytecode_registry s) = MAX_BYTECODE_MODULES"
      and "g_bytecode_count s \<le> MAX_BYTECODE_MODULES"
      and "find_loop (live s) n = Some b"
  shows "g_vm_initialized s' \<and> find_loop (live s') n = Some b"
  using assms
proof (induction rule: later.induct)
  case (here s)
  then show ?case by simp
next
  case (init s s')
  then have "g_vm_initialized s'" by simp
  then have "snd (hako_init s') = s'" by (simp add: hako_init_def)
  with init show ?case by simp
next
  case (load_registry s s' registry count)
  then have i: "g_vm_initialized s'" and f: "find_loop (live s') n = Some b" by simp_all
  from later_table[OF load_registry.hyps load_registry.prems(2,3)]
  have l: "length (g_bytecode_registry s') = MAX_BYTECODE_MODULES"
    and c: "g_bytecode_count s' \<le> MAX_BYTECODE_MODULES" by simp_all
  show ?case
  proof (cases registry)
    case None
    with i f show ?thesis by (simp add: hako_load_registry_def)
  next
    case (Some r)
    from load_registry_spec(2)[OF i l c, of r count] f Some
    have "find_loop (live (snd (hako_load_registry registry count s'))) n = Some b"
      by (simp add: find_loop_append_Some)
    with i show ?thesis by (simp add: hako_load_registry_initialized)
  qed
next
  case (load_bytecode s s' nm bytecode tcb)
  then show ?case by (simp add: hako_load_bytecode_table live_def)
next
  case (run s s' tcb)
  then show ?case by (simp add: hako_run_table live_def)
qed

lemma hako_init_fresh:
  assumes "\<not> g_vm_initialized s0"
  shows "g_vm_initialized (snd (hako_init s0))"
    and "g_bytecode_count (snd (hako_init s0)) = 0"
    and "g_bytecode_registry (snd (hako_init s0)) = g_bytecode_registry s0"
    and "live (snd (hako_init s0)) = []"
  using assms by (simp_all add: hako_init_def hako_register_core_methods_def live_def)

lemma reachable_demo_state: "reachable demo_state"
  unfolding reachable_def demo_state_def
  by (rule later.load_registry, rule later.init, rule later.here)

lemma reachable_full_state: "reachable full_state"
  unfolding reachable_def full_state_def
  by (rule later.load_registry, rule later.init, rule later.here)

lemma hako_load_registry_started:
  "g_vm_thread_started (snd (hako_load_registry registry count s)) = g_vm_thread_started s"
proof (cases "g_vm_initialized s")
  case False
  then show ?thesis by (simp add: hako_load_registry_def)
next
  case True
  show ?thesis
  proof (cases registry)
    case None
    then show ?thesis by (simp add: hako_load_registry_def)
  next
    case (Some r)
    from load_loop_frame[of "take count r" s] obtain reg c where
      "snd (load_loop (take count r) s) = s\<lparr> g_bytecode_registry := reg, g_bytecode_count := c \<rparr>"
      by blast
    with True Some show ?thesis by (simp add: hako_load_registry_def)
  qed
qed

lemma hako_load_bytecode_started:
  "g_vm_thread_started (snd (hako_load_bytecode nm bytecode tcb s)) = g_vm_thread_started s"
  by (simp add: hako_load_bytecode_def hako_load_bytecode_locked_def split: option.splits)

lemma hako_run_started_noop:
  "g_vm_initialized s \<Longrightarrow> g_vm_thread_started s \<Longrightarrow> hako_run tcb s = (Inr (), s)"
  by (simp add: hako_run_def hako_start_vm_thread_def)

text \<open>Once the VM thread is started, every later state is initialised and started.\<close>

lemma later_started:
  assumes "later s s'" and "g_vm_initialized s" and "g_vm_thread_started s"
  shows "g_vm_initialized s' \<and> g_vm_thread_started s'"
  using assms
proof (induction rule: later.induct)
  case (here s)
  then show ?case by simp
next
  case (init s s')
  then have "g_vm_initialized s'" by simp
  then have "snd (hako_init s') = s'" by (simp add: hako_init_def)
  with init show ?case by simp
next
  case (load_registry s s' registry count)
  then show ?case
    by (simp add: hako_load_registry_initialized hako_load_registry_started)
next
  case (load_bytecode s s' nm bytecode tcb)
  then show ?case by (simp add: hako_load_bytecode_table hako_load_bytecode_started)
next
  case (run s s' tcb)
  then show ?case by (simp add: hako_run_started_noop)
qed

section \<open>Facts about the extension walks\<close>

lemma prio_le_255: "(p :: 8 word) \<le> 255"
proof -
  have "unat p < 2 ^ LENGTH(8)" by (rule unsigned_less)
  then show ?thesis by (simp add: word_le_nat_alt)
qed

text \<open>The outer loop of the earlier loader returns from no state.\<close>

lemma prio_loop_no_result:
  assumes "prio_loop catalog prio calls = Some r"
  shows False
proof (rule prio_loop.raw_induct[where P = "\<lambda>c p cs r. False", OF _ assms])
  fix f :: "hako_extension_entry list \<Rightarrow> 8 word \<Rightarrow> nat list \<Rightarrow> nat list option"
  fix c p cs r
  assume "\<And>c p cs r. f c p cs = Some r \<Longrightarrow> False"
    and "(if p \<le> 255 then f c (p + 1) (cs @ ext_pass c 0 p) else Some cs) = Some r"
  then show False by (simp add: prio_le_255)
qed

lemma prio_loop_None: "prio_loop catalog prio calls = None"
  using prio_loop_no_result by (cases "prio_loop catalog prio calls") auto

lemma hako_init_extensions_p001_never_returns:
  "catalog \<noteq> [] \<Longrightarrow> hako_init_extensions_p001 catalog = None"
  by (simp add: hako_init_extensions_p001_def prio_loop_None)

text \<open>With every \<open>init\<close> pointer set, the walk of the threaded loader returns and
  calls the entries once each, in catalog order.\<close>

lemma ext_walk_all:
  "\<forall>e\<in>set catalog. ext_init e \<noteq> None \<Longrightarrow>
   ext_walk catalog i calls = Inr (calls @ [i..<i + length catalog])"
proof (induction catalog arbitrary: i calls)
  case Nil
  then show ?case by simp
next
  case (Cons e es)
  then obtain f where "ext_init e = Some f" by auto
  moreover have "[i..<i + Suc (length es)] = i # [Suc i..<i + Suc (length es)]"
    by (rule upt_conv_Cons) simp
  ultimately show ?case using Cons by simp
qed

lemma ext_walk_null_init:
  "hako_init_extensions
     (\<lparr> ext_name = ''stub'', ext_init = None, ext_priority = 10 \<rparr> # gpio_catalog)
   = Inl (NullCall [])"
  by (simp add: hako_init_extensions_def)

text \<open>One sweep of the priorities 0 to 255 in the earlier loader calls the entries of
  \<open>order_catalog\<close> in the order 10, 10, 50, 90 and is back at priority 0.\<close>

lemma prio_sweep_order:
  "prio_iter 256 order_catalog (0, []) = (0, [1, 3, 0, 2])"
  by code_simp

section \<open>Registry claims\<close>

text \<open>
  C5. After \<open>hako_init\<close> from an uninitialised state, registering a batch of at most
  32 entries with non-\<open>NULL\<close> names and bytecode and pairwise distinct names returns
  0; afterwards \<open>hako_find_bytecode\<close> returns, for every name of the batch, the
  bytecode registered with it, and \<open>NULL\<close> for every other name.
\<close>

theorem registry_round_trip:
  assumes "length (g_bytecode_registry s0) = MAX_BYTECODE_MODULES"
      and "\<not> g_vm_initialized s0"
      and "length batch \<le> MAX_BYTECODE_MODULES"
      and "\<forall>e\<in>set batch. bc_name e \<noteq> None \<and> bc_bytecode e \<noteq> None"
      and "distinct (map bc_name batch)"
      and "hako_load_registry (Some batch) (length batch) (snd (hako_init s0)) = (r, s)"
  shows "r = Inr ()
       \<and> (\<forall>e\<in>set batch. hako_find_bytecode (bc_name e) s = bc_bytecode e)
       \<and> (\<forall>n. Some n \<notin> bc_name ` set batch \<longrightarrow> hako_find_bytecode (Some n) s = None)"
proof -
  let ?s1 = "snd (hako_init s0)"
  have i1: "g_vm_initialized ?s1" and c1: "g_bytecode_count ?s1 = 0" and lv1: "live ?s1 = []"
    and l1: "length (g_bytecode_registry ?s1) = MAX_BYTECODE_MODULES"
    using hako_init_fresh[OF assms(2)] assms(1) by simp_all
  have c1': "g_bytecode_count ?s1 \<le> MAX_BYTECODE_MODULES" using c1 by simp
  have app: "appended (take (length batch) batch) = batch"
    using appended_valid[OF assms(4)] by simp
  have r: "r = Inr ()"
    using load_registry_spec(1)[OF i1 l1 c1', of batch "length batch"] assms(3,6) c1 app
    by simp
  have lv: "live s = batch"
    using load_registry_spec(2)[OF i1 l1 c1', of batch "length batch"] assms(3,6) c1 app lv1
    by simp
  have f1: "\<forall>e\<in>set batch. hako_find_bytecode (bc_name e) s = bc_bytecode e"
  proof
    fix e assume e: "e \<in> set batch"
    with assms(4) obtain n where n: "bc_name e = Some n" by auto
    from find_loop_distinct[OF assms(5) e n] n lv
    show "hako_find_bytecode (bc_name e) s = bc_bytecode e"
      by (simp add: hako_find_bytecode_def hako_find_bytecode_locked_def)
  qed
  have f2: "\<forall>n. Some n \<notin> bc_name ` set batch \<longrightarrow> hako_find_bytecode (Some n) s = None"
  proof (intro allI impI)
    fix n assume "Some n \<notin> bc_name ` set batch"
    then have "\<forall>e\<in>set batch. bc_name e \<noteq> Some n" by (metis imageI)
    from find_loop_absent[OF this] lv
    show "hako_find_bytecode (Some n) s = None"
      by (simp add: hako_find_bytecode_def hako_find_bytecode_locked_def)
  qed
  from r f1 f2 show ?thesis by blast
qed

theorem registry_round_trip_witness:
  "length (g_bytecode_registry hako_boot) = MAX_BYTECODE_MODULES
   \<and> \<not> g_vm_initialized hako_boot
   \<and> length demo_batch \<le> MAX_BYTECODE_MODULES
   \<and> distinct (map bc_name demo_batch)
   \<and> hako_load_registry (Some demo_batch) (length demo_batch) (snd (hako_init hako_boot))
        = (Inr (), demo_state)
   \<and> hako_find_bytecode (Some ''main'') demo_state = Some 1
   \<and> hako_find_bytecode (Some ''utils'') demo_state = Some 2
   \<and> hako_find_bytecode (Some ''gpio'') demo_state = None"
proof -
  have h1: "length (g_bytecode_registry hako_boot) = MAX_BYTECODE_MODULES" by code_simp
  have h2: "\<not> g_vm_initialized hako_boot" by code_simp
  have h3: "length demo_batch \<le> MAX_BYTECODE_MODULES" by code_simp
  have h4: "\<forall>e\<in>set demo_batch. bc_name e \<noteq> None \<and> bc_bytecode e \<noteq> None" by code_simp
  have h5: "distinct (map bc_name demo_batch)" by code_simp
  have h6: "hako_load_registry (Some demo_batch) (length demo_batch) (snd (hako_init hako_boot))
        = (Inr (), demo_state)" by code_simp
  note rt = registry_round_trip[OF h1 h2 h3 h4 h5 h6]
  from rt have found: "\<forall>e\<in>set demo_batch. hako_find_bytecode (bc_name e) demo_state = bc_bytecode e"
    by blast
  from rt have absent: "Some ''gpio'' \<notin> bc_name ` set demo_batch \<longrightarrow>
      hako_find_bytecode (Some ''gpio'') demo_state = None"
    by blast
  have m: "hako_find_bytecode (Some ''main'') demo_state = Some 1"
    using found by (simp add: demo_batch_def)
  have u: "hako_find_bytecode (Some ''utils'') demo_state = Some 2"
    using found by (simp add: demo_batch_def)
  have g: "hako_find_bytecode (Some ''gpio'') demo_state = None"
    using absent by (simp add: demo_batch_def)
  from h1 h2 h3 h5 h6 m u g show ?thesis by blast
qed

text \<open>
  C6. After \<open>hako_init\<close> from an uninitialised state, registering 33 entries with
  non-\<open>NULL\<close> names and bytecode in one call returns \<open>-ENOMEM\<close>; the count is then
  32 and the table holds exactly the first 32 entries of the batch, in order. With
  pairwise distinct names each of these 32 is found with its own bytecode and the
  name of the 33rd is not found.
\<close>

theorem capacity_boundary:
  assumes "length (g_bytecode_registry s0) = MAX_BYTECODE_MODULES"
      and "\<not> g_vm_initialized s0"
      and "length batch = MAX_BYTECODE_MODULES + 1"
      and "\<forall>e\<in>set batch. bc_name e \<noteq> None \<and> bc_bytecode e \<noteq> None"
      and "hako_load_registry (Some batch) (length batch) (snd (hako_init s0)) = (r, s)"
  shows "r = Inl ENOMEM
       \<and> g_bytecode_count s = MAX_BYTECODE_MODULES
       \<and> live s = take MAX_BYTECODE_MODULES batch
       \<and> (distinct (map bc_name batch) \<longrightarrow>
            (\<forall>e\<in>set (take MAX_BYTECODE_MODULES batch).
                hako_find_bytecode (bc_name e) s = bc_bytecode e)
          \<and> hako_find_bytecode (bc_name (last batch)) s = None)"
proof -
  let ?s1 = "snd (hako_init s0)"
  have i1: "g_vm_initialized ?s1" and c1: "g_bytecode_count ?s1 = 0" and lv1: "live ?s1 = []"
    and l1: "length (g_bytecode_registry ?s1) = MAX_BYTECODE_MODULES"
    using hako_init_fresh[OF assms(2)] assms(1) by simp_all
  have c1': "g_bytecode_count ?s1 \<le> MAX_BYTECODE_MODULES" using c1 by simp
  have app: "appended (take (length batch) batch) = batch"
    using appended_valid[OF assms(4)] by simp
  have r: "r = Inl ENOMEM"
    using load_registry_spec(1)[OF i1 l1 c1', of batch "length batch"] assms(3,5) c1 app
    by simp
  have cnt: "g_bytecode_count s = MAX_BYTECODE_MODULES"
    using load_registry_spec(3)[OF i1 l1 c1', of batch "length batch"] assms(3,5) c1 app
    by simp
  have lv: "live s = take MAX_BYTECODE_MODULES batch"
    using load_registry_spec(2)[OF i1 l1 c1', of batch "length batch"] assms(3,5) c1 app lv1
    by simp
  have fnd: "(\<forall>e\<in>set (take MAX_BYTECODE_MODULES batch).
                hako_find_bytecode (bc_name e) s = bc_bytecode e)
          \<and> hako_find_bytecode (bc_name (last batch)) s = None"
    if d: "distinct (map bc_name batch)"
  proof
    have split: "batch = take MAX_BYTECODE_MODULES batch @ [last batch]"
      using assms(3)
      by (metis Suc_eq_plus1 append_butlast_last_id butlast_conv_take diff_Suc_1
            length_0_conv nat.simps(3))
    from d have d1: "distinct (map bc_name (take MAX_BYTECODE_MODULES batch))"
      by (metis distinct_take take_map)
    show "\<forall>e\<in>set (take MAX_BYTECODE_MODULES batch).
                hako_find_bytecode (bc_name e) s = bc_bytecode e"
    proof
      fix e assume e: "e \<in> set (take MAX_BYTECODE_MODULES batch)"
      then have "e \<in> set batch" by (rule in_set_takeD)
      with assms(4) obtain n where n: "bc_name e = Some n" by auto
      from find_loop_distinct[OF d1 e n] n lv
      show "hako_find_bytecode (bc_name e) s = bc_bytecode e"
        by (simp add: hako_find_bytecode_def hako_find_bytecode_locked_def)
    qed
    have "last batch \<in> set batch" using assms(3) by (metis split in_set_conv_decomp)
    with assms(4) obtain n where n: "bc_name (last batch) = Some n" by auto
    have "distinct (map bc_name (take MAX_BYTECODE_MODULES batch) @ [bc_name (last batch)])"
      using d split by (metis list.simps(8,9) map_append)
    then have "Some n \<notin> bc_name ` set (take MAX_BYTECODE_MODULES batch)"
      using n by simp
    then have "\<forall>e\<in>set (take MAX_BYTECODE_MODULES batch). bc_name e \<noteq> Some n"
      by (metis imageI)
    from find_loop_absent[OF this] lv n
    show "hako_find_bytecode (bc_name (last batch)) s = None"
      by (simp add: hako_find_bytecode_def hako_find_bytecode_locked_def)
  qed
  from r cnt lv fnd show ?thesis by blast
qed

theorem capacity_boundary_witness:
  "length (g_bytecode_registry hako_boot) = MAX_BYTECODE_MODULES
   \<and> \<not> g_vm_initialized hako_boot
   \<and> length full_batch = MAX_BYTECODE_MODULES + 1
   \<and> distinct (map bc_name full_batch)
   \<and> hako_load_registry (Some full_batch) (length full_batch) (snd (hako_init hako_boot))
        = (Inl ENOMEM, full_state)
   \<and> g_bytecode_count full_state = MAX_BYTECODE_MODULES
   \<and> live full_state = take MAX_BYTECODE_MODULES full_batch
   \<and> hako_find_bytecode (Some ''m'') full_state = Some 100
   \<and> hako_find_bytecode (Some (replicate 33 CHR ''m'')) full_state = None"
proof -
  have h1: "length (g_bytecode_registry hako_boot) = MAX_BYTECODE_MODULES" by code_simp
  have h2: "\<not> g_vm_initialized hako_boot" by code_simp
  have h3: "length full_batch = MAX_BYTECODE_MODULES + 1" by code_simp
  have h4: "\<forall>e\<in>set full_batch. bc_name e \<noteq> None \<and> bc_bytecode e \<noteq> None" by code_simp
  have h5: "distinct (map bc_name full_batch)" by code_simp
  have h6: "hako_load_registry (Some full_batch) (length full_batch) (snd (hako_init hako_boot))
        = (Inl ENOMEM, full_state)" by code_simp
  note cb = capacity_boundary[OF h1 h2 h3 h4 h6]
  from cb have c: "g_bytecode_count full_state = MAX_BYTECODE_MODULES"
    and l: "live full_state = take MAX_BYTECODE_MODULES full_batch" by blast+
  from cb h5 have found: "\<forall>e\<in>set (take MAX_BYTECODE_MODULES full_batch).
      hako_find_bytecode (bc_name e) full_state = bc_bytecode e"
    and lastn: "hako_find_bytecode (bc_name (last full_batch)) full_state = None" by blast+
  have e0: "\<lparr> bc_name = Some ''m'', bc_bytecode = Some 100 \<rparr>
              \<in> set (take MAX_BYTECODE_MODULES full_batch)" by code_simp
  have f0: "hako_find_bytecode (Some ''m'') full_state = Some 100"
    using found e0 by fastforce
  have e32: "bc_name (last full_batch) = Some (replicate 33 CHR ''m'')" by code_simp
  have f32: "hako_find_bytecode (Some (replicate 33 CHR ''m'')) full_state = None"
    using lastn e32 by simp
  from h1 h2 h3 h5 h6 c l f0 f32 show ?thesis by blast
qed

text \<open>
  C7. Registering two entries with the same name (non-\<open>NULL\<close> bytecode, the name not
  registered before, room for both) returns 0 and appends both to the table, and
  \<open>hako_find_bytecode\<close> on that name returns the bytecode of the first of the two,
  in that state and in every state the public operations lead to from it.
\<close>

theorem duplicate_names:
  assumes "g_vm_initialized s"
      and "length (g_bytecode_registry s) = MAX_BYTECODE_MODULES"
      and "g_bytecode_count s + 2 \<le> MAX_BYTECODE_MODULES"
      and "\<forall>e\<in>set (live s). bc_name e \<noteq> Some n"
      and "hako_load_registry
             (Some [\<lparr> bc_name = Some n, bc_bytecode = Some b1 \<rparr>,
                    \<lparr> bc_name = Some n, bc_bytecode = Some b2 \<rparr>]) 2 s = (r, s1)"
  shows "r = Inr ()
       \<and> live s1 = live s @ [\<lparr> bc_name = Some n, bc_bytecode = Some b1 \<rparr>,
                             \<lparr> bc_name = Some n, bc_bytecode = Some b2 \<rparr>]
       \<and> hako_find_bytecode (Some n) s1 = Some b1
       \<and> (\<forall>s2. later s1 s2 \<longrightarrow> hako_find_bytecode (Some n) s2 = Some b1)"
proof -
  let ?e1 = "\<lparr> bc_name = Some n, bc_bytecode = Some b1 \<rparr>"
  let ?e2 = "\<lparr> bc_name = Some n, bc_bytecode = Some b2 \<rparr>"
  have c: "g_bytecode_count s \<le> MAX_BYTECODE_MODULES" using assms(3) by simp
  have app: "appended (take 2 [?e1, ?e2]) = [?e1, ?e2]" by (simp add: appended_def)
  have r: "r = Inr ()"
    using load_registry_spec(1)[OF assms(1,2) c, of "[?e1, ?e2]" 2] assms(3,5) app by simp
  have lv: "live s1 = live s @ [?e1, ?e2]"
    using load_registry_spec(2)[OF assms(1,2) c, of "[?e1, ?e2]" 2] assms(3,5) app by simp
  have i1: "g_vm_initialized s1"
    using hako_load_registry_initialized[of "Some [?e1, ?e2]" 2 s] assms(1,5) by simp
  have l1: "length (g_bytecode_registry s1) = MAX_BYTECODE_MODULES"
    using load_registry_spec(4)[OF assms(1,2) c, of "[?e1, ?e2]" 2] assms(5) by simp
  have c1: "g_bytecode_count s1 \<le> MAX_BYTECODE_MODULES"
    using load_registry_spec(3)[OF assms(1,2) c, of "[?e1, ?e2]" 2] assms(5) by simp
  have f: "find_loop (live s1) n = Some b1"
    using lv assms(4) by (simp add: find_loop_append find_loop_absent)
  have f1: "hako_find_bytecode (Some n) s1 = Some b1"
    using f by (simp add: hako_find_bytecode_def hako_find_bytecode_locked_def)
  have f2: "\<forall>s2. later s1 s2 \<longrightarrow> hako_find_bytecode (Some n) s2 = Some b1"
  proof (intro allI impI)
    fix s2 assume "later s1 s2"
    from later_find[OF this i1 l1 c1 f]
    show "hako_find_bytecode (Some n) s2 = Some b1"
      by (simp add: hako_find_bytecode_def hako_find_bytecode_locked_def)
  qed
  from r lv f1 f2 show ?thesis by blast
qed

theorem duplicate_names_witness:
  "g_vm_initialized demo_state
   \<and> length (g_bytecode_registry demo_state) = MAX_BYTECODE_MODULES
   \<and> g_bytecode_count demo_state + 2 \<le> MAX_BYTECODE_MODULES
   \<and> hako_find_bytecode (Some ''util'') demo_state = None
   \<and> hako_load_registry
        (Some [\<lparr> bc_name = Some ''util'', bc_bytecode = Some 5 \<rparr>,
               \<lparr> bc_name = Some ''util'', bc_bytecode = Some 6 \<rparr>]) 2 demo_state
        = (Inr (), dup_state)
   \<and> live dup_state = live demo_state @
         [\<lparr> bc_name = Some ''util'', bc_bytecode = Some 5 \<rparr>,
          \<lparr> bc_name = Some ''util'', bc_bytecode = Some 6 \<rparr>]
   \<and> hako_find_bytecode (Some ''util'') dup_state = Some 5
   \<and> hako_find_bytecode (Some ''util'')
        (snd (hako_run (Some 7) (snd (hako_load_registry (Some demo_batch) 2 dup_state))))
        = Some 5"
proof -
  have h1: "g_vm_initialized demo_state" by code_simp
  have h2: "length (g_bytecode_registry demo_state) = MAX_BYTECODE_MODULES" by code_simp
  have h3: "g_bytecode_count demo_state + 2 \<le> MAX_BYTECODE_MODULES" by code_simp
  have h4: "\<forall>e\<in>set (live demo_state). bc_name e \<noteq> Some ''util''" by code_simp
  have h4': "hako_find_bytecode (Some ''util'') demo_state = None" by code_simp
  have h5: "hako_load_registry
        (Some [\<lparr> bc_name = Some ''util'', bc_bytecode = Some 5 \<rparr>,
               \<lparr> bc_name = Some ''util'', bc_bytecode = Some 6 \<rparr>]) 2 demo_state
        = (Inr (), dup_state)" by code_simp
  have h6: "later dup_state
       (snd (hako_run (Some 7) (snd (hako_load_registry (Some demo_batch) 2 dup_state))))"
    by (rule later.run, rule later.load_registry, rule later.here)
  note dn = duplicate_names[OF h1 h2 h3 h4 h5]
  from dn have a: "live dup_state = live demo_state @
         [\<lparr> bc_name = Some ''util'', bc_bytecode = Some 5 \<rparr>,
          \<lparr> bc_name = Some ''util'', bc_bytecode = Some 6 \<rparr>]"
    and b: "hako_find_bytecode (Some ''util'') dup_state = Some 5" by blast+
  from dn h6 have c: "hako_find_bytecode (Some ''util'')
        (snd (hako_run (Some 7) (snd (hako_load_registry (Some demo_batch) 2 dup_state))))
        = Some 5" by blast
  from h1 h2 h3 h4' h5 a b c show ?thesis by blast
qed

text \<open>
  C9. \<open>g_bytecode_count \<le> 32\<close> holds at program start, each public operation that
  returns a state preserves it (\<open>hako_find_bytecode\<close> returns none), and so it holds
  in every reachable state. In a reachable, initialised state \<open>hako_load_registry\<close>
  returns \<open>-ENOMEM\<close> whenever the entries it has to append exceed the room that is
  left, and otherwise returns 0 with every one of them appended.
\<close>

theorem registry_capacity_invariant:
  "g_bytecode_count hako_boot \<le> MAX_BYTECODE_MODULES
 \<and> (g_bytecode_count sa \<le> MAX_BYTECODE_MODULES \<longrightarrow>
       g_bytecode_count (snd (hako_init sa)) \<le> MAX_BYTECODE_MODULES
     \<and> g_bytecode_count (snd (hako_load_registry registry count sa)) \<le> MAX_BYTECODE_MODULES
     \<and> g_bytecode_count (snd (hako_load_bytecode nm bytecode tcb sa)) \<le> MAX_BYTECODE_MODULES
     \<and> g_bytecode_count (snd (hako_run tcb sa)) \<le> MAX_BYTECODE_MODULES)
 \<and> (reachable sb \<longrightarrow> g_bytecode_count sb \<le> MAX_BYTECODE_MODULES)
 \<and> (reachable sc \<and> g_vm_initialized sc
      \<and> MAX_BYTECODE_MODULES < g_bytecode_count sc + length (appended (take cc rc)) \<longrightarrow>
       fst (hako_load_registry (Some rc) cc sc) = Inl ENOMEM)
 \<and> (reachable sd \<and> g_vm_initialized sd
      \<and> g_bytecode_count sd + length (appended (take cd rd)) \<le> MAX_BYTECODE_MODULES \<longrightarrow>
       fst (hako_load_registry (Some rd) cd sd) = Inr ()
     \<and> live (snd (hako_load_registry (Some rd) cd sd)) = live sd @ appended (take cd rd))"
proof (intro conjI impI)
  show "g_bytecode_count hako_boot \<le> MAX_BYTECODE_MODULES" by (simp add: hako_boot_def)
next
  assume "g_bytecode_count sa \<le> MAX_BYTECODE_MODULES"
  then show "g_bytecode_count (snd (hako_init sa)) \<le> MAX_BYTECODE_MODULES"
    using hako_init_table(2)[of sa] by simp
next
  assume "g_bytecode_count sa \<le> MAX_BYTECODE_MODULES"
  then show "g_bytecode_count (snd (hako_load_registry registry count sa)) \<le> MAX_BYTECODE_MODULES"
    by (rule hako_load_registry_count_le)
next
  assume "g_bytecode_count sa \<le> MAX_BYTECODE_MODULES"
  then show "g_bytecode_count (snd (hako_load_bytecode nm bytecode tcb sa)) \<le> MAX_BYTECODE_MODULES"
    by (simp add: hako_load_bytecode_table)
next
  assume "g_bytecode_count sa \<le> MAX_BYTECODE_MODULES"
  then show "g_bytecode_count (snd (hako_run tcb sa)) \<le> MAX_BYTECODE_MODULES"
    by (simp add: hako_run_table)
next
  assume "reachable sb"
  then show "g_bytecode_count sb \<le> MAX_BYTECODE_MODULES" using reachable_table by blast
next
  assume h: "reachable sc \<and> g_vm_initialized sc
      \<and> MAX_BYTECODE_MODULES < g_bytecode_count sc + length (appended (take cc rc))"
  then have "length (g_bytecode_registry sc) = MAX_BYTECODE_MODULES"
    and "g_bytecode_count sc \<le> MAX_BYTECODE_MODULES" using reachable_table by blast+
  from load_registry_spec(1)[OF _ this, of rc cc] h
  show "fst (hako_load_registry (Some rc) cc sc) = Inl ENOMEM" by simp
next
  assume h: "reachable sd \<and> g_vm_initialized sd
      \<and> g_bytecode_count sd + length (appended (take cd rd)) \<le> MAX_BYTECODE_MODULES"
  then have t: "length (g_bytecode_registry sd) = MAX_BYTECODE_MODULES"
    "g_bytecode_count sd \<le> MAX_BYTECODE_MODULES" using reachable_table by blast+
  from load_registry_spec(1)[OF _ t, of rd cd] h
  show "fst (hako_load_registry (Some rd) cd sd) = Inr ()" by simp
  from h have "length (appended (take cd rd)) \<le> MAX_BYTECODE_MODULES - g_bytecode_count sd"
    by linarith
  with load_registry_spec(2)[OF _ t, of rd cd] h
  show "live (snd (hako_load_registry (Some rd) cd sd)) = live sd @ appended (take cd rd)"
    by simp
qed

theorem registry_capacity_invariant_witness:
  "g_bytecode_count hako_boot \<le> MAX_BYTECODE_MODULES
 \<and> (g_bytecode_count full_state \<le> MAX_BYTECODE_MODULES
     \<and> g_bytecode_count (snd (hako_init full_state)) \<le> MAX_BYTECODE_MODULES
     \<and> g_bytecode_count (snd (hako_load_registry (Some demo_batch) 2 full_state))
          \<le> MAX_BYTECODE_MODULES
     \<and> g_bytecode_count (snd (hako_load_bytecode (Some ''main'') (Some 1) (Some 7) full_state))
          \<le> MAX_BYTECODE_MODULES
     \<and> g_bytecode_count (snd (hako_run (Some 7) full_state)) \<le> MAX_BYTECODE_MODULES)
 \<and> (g_vm_initialized full_state
      \<and> MAX_BYTECODE_MODULES
          < g_bytecode_count full_state + length (appended (take 2 demo_batch))
      \<and> fst (hako_load_registry (Some demo_batch) 2 full_state) = Inl ENOMEM)
 \<and> (g_vm_initialized demo_state
      \<and> g_bytecode_count demo_state + length (appended (take 2 dup_batch))
          \<le> MAX_BYTECODE_MODULES
      \<and> fst (hako_load_registry (Some dup_batch) 2 demo_state) = Inr ()
      \<and> live (snd (hako_load_registry (Some dup_batch) 2 demo_state)) =
          live demo_state @ appended (take 2 dup_batch))"
proof -
  have a: "g_bytecode_count full_state \<le> MAX_BYTECODE_MODULES" by code_simp
  have c1: "g_vm_initialized full_state" by code_simp
  have c2: "MAX_BYTECODE_MODULES
          < g_bytecode_count full_state + length (appended (take 2 demo_batch))" by code_simp
  have d1: "g_vm_initialized demo_state" by code_simp
  have d2: "g_bytecode_count demo_state + length (appended (take 2 dup_batch))
          \<le> MAX_BYTECODE_MODULES" by code_simp
  from registry_capacity_invariant[of full_state "Some demo_batch" 2 "Some ''main''" "Some 1"
        "Some 7" full_state full_state 2 demo_batch demo_state 2 dup_batch]
       a c1 c2 d1 d2 reachable_demo_state reachable_full_state
  show ?thesis by blast
qed

section \<open>Extension claims\<close>

text \<open>
  C1. The claim: \<open>hako_init_extensions\<close> calls the \<open>init\<close> callbacks in ascending
  priority, ties in catalog order, so that priorities 50, 10, 90, 10 are called as
  10, 10, 50, 90. The threaded loader walks the catalog in link order: on
  \<open>order_catalog\<close> it calls entries 0, 1, 2, 3, that is priorities 50, 10, 90, 10.
\<close>

theorem hako_init_extensions_order:
  "hako_init_extensions order_catalog = Inr [0, 1, 2, 3]
   \<and> map (\<lambda>i. ext_priority (order_catalog ! i)) [0, 1, 2, 3] = [50, 10, 90, 10]
   \<and> map (\<lambda>i. ext_priority (order_catalog ! i)) [0, 1, 2, 3] \<noteq> [10, 10, 50, 90]"
  by (simp add: order_catalog_def hako_init_extensions_def)

text \<open>
  C2. The claim: the first call of \<open>hako_init\<close> runs the extension initialisation.
  In the threaded loader the first call from program start succeeds and sets
  \<open>g_vm_initialized\<close>, and no extension callback has been called.
\<close>

theorem hako_init_no_extension_walk:
  "\<not> g_vm_initialized hako_boot
   \<and> fst (hako_init hako_boot) = Inr ()
   \<and> g_vm_initialized (snd (hako_init hako_boot))
   \<and> ext_calls (snd (hako_init hako_boot)) = []"
  by (simp add: hako_init_def hako_boot_def hako_register_core_methods_def)

text \<open>
  C3. The claim: one call of \<open>hako_init_extensions\<close> terminates and calls every
  callback exactly once. In the earlier loader the call on the catalog holding
  \<open>zephyr_gpio\<close> does not return, and within 512 iterations of the priority loop
  the callback of entry 0 has been called twice.
\<close>

theorem hako_init_extensions_p001_diverges:
  "hako_init_extensions_p001 gpio_catalog = None
   \<and> snd (prio_iter 512 gpio_catalog (0, [])) = [0, 0]"
proof
  show "hako_init_extensions_p001 gpio_catalog = None"
    by (simp add: hako_init_extensions_p001_def gpio_catalog_def prio_loop_None)
  show "snd (prio_iter 512 gpio_catalog (0, [])) = [0, 0]"
    by code_simp
qed

section \<open>Lifecycle claims\<close>

text \<open>
  C8. \<open>hako_init\<close> on a state that is already initialised returns 0 and leaves the
  whole state as it was: no \<open>mrbc_init\<close>, no reset of \<open>g_bytecode_count\<close>, no
  extension call. This holds in both loaders.
\<close>

theorem init_idempotent:
  "g_vm_initialized s \<Longrightarrow>
     hako_init s = (Inr (), s) \<and> hako_init_p001 vm catalog s = Some (Inr (), s)"
  by (simp add: hako_init_def hako_init_p001_def)

theorem init_idempotent_witness:
  "g_vm_initialized demo_state
   \<and> hako_init demo_state = (Inr (), demo_state)
   \<and> hako_init_p001 (Some 1) gpio_catalog demo_state = Some (Inr (), demo_state)"
proof -
  have h: "g_vm_initialized demo_state" by code_simp
  from init_idempotent[OF h, of "Some 1" gpio_catalog] h show ?thesis by blast
qed

text \<open>
  C4. \<open>hako_run\<close> before \<open>hako_init\<close> returns \<open>-EINVAL\<close> (the not-initialised
  error of the code). A run that starts the VM thread creates one thread; from then
  on, in the state it returned and in every state the public operations lead to
  from it, the runtime stays initialised and started and a further run returns 0
  and leaves the state as it is, so no second thread is created and no task is
  added. In general a run in any initialised, started state is such a no-op. With
  no module \<open>main\<close> registered, a run still returns 0, creates no task, and starts
  the thread if it was not started.
\<close>

theorem run_semantics:
  "(\<not> g_vm_initialized sa \<longrightarrow> hako_run tcb sa = (Inl EINVAL, sa))
 \<and> (g_vm_initialized sb \<and> \<not> g_vm_thread_started sb \<and> hako_run tcb sb = (Inr (), s1) \<longrightarrow>
       threads_created s1 = threads_created sb + 1
     \<and> hako_run tcb' s1 = (Inr (), s1)
     \<and> (\<forall>s2. later s1 s2 \<longrightarrow>
            g_vm_initialized s2 \<and> g_vm_thread_started s2
          \<and> hako_run tcb' s2 = (Inr (), s2)))
 \<and> (g_vm_initialized se \<and> g_vm_thread_started se \<longrightarrow> hako_run tcb se = (Inr (), se))
 \<and> (g_vm_initialized sc \<and> hako_find_bytecode (Some ''main'') sc = None \<longrightarrow>
       fst (hako_run tcb sc) = Inr ()
     \<and> tasks (snd (hako_run tcb sc)) = tasks sc
     \<and> (\<not> g_vm_thread_started sc \<longrightarrow>
          threads_created (snd (hako_run tcb sc)) = threads_created sc + 1))"
proof (intro conjI)
  show "\<not> g_vm_initialized sa \<longrightarrow> hako_run tcb sa = (Inl EINVAL, sa)"
    by (simp add: hako_run_def hako_start_vm_thread_def)
next
  show "g_vm_initialized sb \<and> \<not> g_vm_thread_started sb \<and> hako_run tcb sb = (Inr (), s1) \<longrightarrow>
       threads_created s1 = threads_created sb + 1
     \<and> hako_run tcb' s1 = (Inr (), s1)
     \<and> (\<forall>s2. later s1 s2 \<longrightarrow>
            g_vm_initialized s2 \<and> g_vm_thread_started s2
          \<and> hako_run tcb' s2 = (Inr (), s2))"
  proof
    assume h: "g_vm_initialized sb \<and> \<not> g_vm_thread_started sb \<and> hako_run tcb sb = (Inr (), s1)"
    then have first: "threads_created s1 = threads_created sb + 1
        \<and> g_vm_initialized s1 \<and> g_vm_thread_started s1"
      by (auto simp: hako_run_def hako_start_vm_thread_def hako_load_bytecode_locked_def Let_def
            split: option.splits)
    then have i1: "g_vm_initialized s1" and t1: "g_vm_thread_started s1" by simp_all
    have all: "\<forall>s2. later s1 s2 \<longrightarrow>
            g_vm_initialized s2 \<and> g_vm_thread_started s2
          \<and> hako_run tcb' s2 = (Inr (), s2)"
    proof (intro allI impI)
      fix s2 assume "later s1 s2"
      from later_started[OF this i1 t1]
      show "g_vm_initialized s2 \<and> g_vm_thread_started s2 \<and> hako_run tcb' s2 = (Inr (), s2)"
        by (simp add: hako_run_started_noop)
    qed
    from first all hako_run_started_noop[OF i1 t1, of tcb']
    show "threads_created s1 = threads_created sb + 1
     \<and> hako_run tcb' s1 = (Inr (), s1)
     \<and> (\<forall>s2. later s1 s2 \<longrightarrow>
            g_vm_initialized s2 \<and> g_vm_thread_started s2
          \<and> hako_run tcb' s2 = (Inr (), s2))" by blast
  qed
next
  show "g_vm_initialized se \<and> g_vm_thread_started se \<longrightarrow> hako_run tcb se = (Inr (), se)"
    by (simp add: hako_run_started_noop)
next
  show "g_vm_initialized sc \<and> hako_find_bytecode (Some ''main'') sc = None \<longrightarrow>
       fst (hako_run tcb sc) = Inr ()
     \<and> tasks (snd (hako_run tcb sc)) = tasks sc
     \<and> (\<not> g_vm_thread_started sc \<longrightarrow>
          threads_created (snd (hako_run tcb sc)) = threads_created sc + 1)"
    by (auto simp: hako_run_def hako_start_vm_thread_def hako_find_bytecode_def Let_def)
qed

theorem run_semantics_witness:
  "(\<not> g_vm_initialized hako_boot \<and> hako_run (Some 7) hako_boot = (Inl EINVAL, hako_boot))
 \<and> (g_vm_initialized demo_state \<and> \<not> g_vm_thread_started demo_state
     \<and> hako_run (Some 7) demo_state = (Inr (), snd (hako_run (Some 7) demo_state))
     \<and> threads_created (snd (hako_run (Some 7) demo_state)) = threads_created demo_state + 1
     \<and> hako_run (Some 8) (snd (hako_run (Some 7) demo_state)) =
          (Inr (), snd (hako_run (Some 7) demo_state)))
 \<and> (g_vm_initialized (snd (hako_init hako_boot))
     \<and> \<not> g_vm_thread_started (snd (hako_init hako_boot))
     \<and> hako_run (Some 7) (snd (hako_init hako_boot)) = (Inr (), running_state)
     \<and> threads_created running_state = 1
     \<and> g_vm_thread_started (snd (hako_load_registry (Some demo_batch) 2 running_state))
     \<and> hako_find_bytecode (Some ''main'')
          (snd (hako_load_registry (Some demo_batch) 2 running_state)) = Some 1
     \<and> hako_run (Some 8) (snd (hako_load_registry (Some demo_batch) 2 running_state)) =
          (Inr (), snd (hako_load_registry (Some demo_batch) 2 running_state))
     \<and> threads_created
          (snd (hako_run (Some 8) (snd (hako_load_registry (Some demo_batch) 2 running_state))))
          = 1
     \<and> tasks
          (snd (hako_run (Some 8) (snd (hako_load_registry (Some demo_batch) 2 running_state))))
          = [])
 \<and> (g_vm_initialized running_state \<and> g_vm_thread_started running_state
     \<and> hako_run None running_state = (Inr (), running_state))
 \<and> (g_vm_initialized (snd (hako_init hako_boot))
     \<and> hako_find_bytecode (Some ''main'') (snd (hako_init hako_boot)) = None
     \<and> fst (hako_run (Some 7) (snd (hako_init hako_boot))) = Inr ()
     \<and> tasks (snd (hako_run (Some 7) (snd (hako_init hako_boot)))) =
         tasks (snd (hako_init hako_boot))
     \<and> threads_created (snd (hako_run (Some 7) (snd (hako_init hako_boot)))) =
         threads_created (snd (hako_init hako_boot)) + 1)"
proof -
  let ?i = "snd (hako_init hako_boot)"
  let ?l = "snd (hako_load_registry (Some demo_batch) 2 running_state)"
  have a: "\<not> g_vm_initialized hako_boot" by code_simp
  have b1: "g_vm_initialized demo_state" by code_simp
  have b2: "\<not> g_vm_thread_started demo_state" by code_simp
  have b3f: "fst (hako_run (Some 7) demo_state) = Inr ()" by code_simp
  have b3: "hako_run (Some 7) demo_state = (Inr (), snd (hako_run (Some 7) demo_state))"
    using b3f by (metis prod.collapse)
  have c1: "g_vm_initialized ?i" by code_simp
  have c2: "hako_find_bytecode (Some ''main'') ?i = None" by code_simp
  have c3: "\<not> g_vm_thread_started ?i" by code_simp
  have r1: "hako_run (Some 7) ?i = (Inr (), running_state)" by code_simp
  have r2: "threads_created ?i = 0" by code_simp
  have r3: "tasks running_state = []" by code_simp
  have m: "hako_find_bytecode (Some ''main'') ?l = Some 1" by code_simp
  have lt: "later running_state ?l" by (rule later.load_registry) (rule later.here)
  have e1: "g_vm_initialized running_state" by code_simp
  have e2: "g_vm_thread_started running_state" by code_simp
  note first = run_semantics[of hako_boot "Some 7" demo_state "snd (hako_run (Some 7) demo_state)"
        "Some 8" running_state ?i]
  note second = run_semantics[of hako_boot "Some 7" ?i running_state "Some 8" running_state ?i]
  note third = run_semantics[of hako_boot None ?i running_state "Some 8" running_state ?i]
  from first a have A: "hako_run (Some 7) hako_boot = (Inl EINVAL, hako_boot)" by blast
  from first b1 b2 b3 have B:
    "threads_created (snd (hako_run (Some 7) demo_state)) = threads_created demo_state + 1"
    "hako_run (Some 8) (snd (hako_run (Some 7) demo_state)) =
          (Inr (), snd (hako_run (Some 7) demo_state))" by blast+
  from second c1 c3 r1 have C0: "threads_created running_state = threads_created ?i + 1"
    and C1: "\<forall>s2. later running_state s2 \<longrightarrow>
            g_vm_initialized s2 \<and> g_vm_thread_started s2
          \<and> hako_run (Some 8) s2 = (Inr (), s2)" by blast+
  from C0 r2 have C2: "threads_created running_state = 1" by simp
  from C1 lt have C3: "g_vm_thread_started ?l" and C4: "hako_run (Some 8) ?l = (Inr (), ?l)"
    by blast+
  have fr: "threads_created ?l = threads_created running_state \<and> tasks ?l = tasks running_state"
  proof -
    from load_loop_frame[of "take 2 demo_batch" running_state] obtain reg c where
      "snd (load_loop (take 2 demo_batch) running_state) =
         running_state\<lparr> g_bytecode_registry := reg, g_bytecode_count := c \<rparr>" by blast
    with e1 show ?thesis by (simp add: hako_load_registry_def)
  qed
  from C4 fr C2 r3 have C5: "threads_created (snd (hako_run (Some 8) ?l)) = 1"
    and C6: "tasks (snd (hako_run (Some 8) ?l)) = []" by simp_all
  from third e1 e2 have E: "hako_run None running_state = (Inr (), running_state)" by blast
  from first c1 c2 c3 have D:
    "fst (hako_run (Some 7) ?i) = Inr ()"
    "tasks (snd (hako_run (Some 7) ?i)) = tasks ?i"
    "threads_created (snd (hako_run (Some 7) ?i)) = threads_created ?i + 1" by blast+
  from a A b1 b2 b3 B c1 c3 r1 C2 C3 m C4 C5 C6 e1 e2 E c2 D show ?thesis by blast
qed

text \<open>
  C10. When \<open>main\<close> is registered and \<open>mrbc_create_task\<close> fails, \<open>hako_run\<close> returns
  \<open>-ENOMEM\<close> with the state unchanged: no thread is created and
  \<open>g_vm_thread_started\<close> stays false. A later run in which the task is created
  does the whole start again: it adds the task for \<open>main\<close>, creates the thread and
  sets the flag.
\<close>

theorem run_main_load_failure:
  assumes "g_vm_initialized s" and "\<not> g_vm_thread_started s"
      and "hako_find_bytecode (Some ''main'') s = Some b"
  shows "hako_run None s = (Inl ENOMEM, s)
       \<and> hako_run (Some t) (snd (hako_run None s)) =
           (Inr (), s\<lparr> tasks := tasks s @ [(t, Some ''main'', b)],
                       g_vm := (if g_vm s = None then Some t else g_vm s),
                       threads_created := threads_created s + 1,
                       g_vm_thread_started := True \<rparr>)"
  using assms
  by (simp add: hako_run_def hako_start_vm_thread_def hako_find_bytecode_def
        hako_load_bytecode_locked_def Let_def)

theorem run_main_load_failure_witness:
  "g_vm_initialized demo_state \<and> \<not> g_vm_thread_started demo_state
   \<and> hako_find_bytecode (Some ''main'') demo_state = Some 1
   \<and> hako_run None demo_state = (Inl ENOMEM, demo_state)
   \<and> hako_run (Some 7) (snd (hako_run None demo_state)) =
           (Inr (), demo_state\<lparr> tasks := tasks demo_state @ [(7, Some ''main'', 1)],
                       g_vm := (if g_vm demo_state = None then Some 7 else g_vm demo_state),
                       threads_created := threads_created demo_state + 1,
                       g_vm_thread_started := True \<rparr>)"
proof -
  have b1: "g_vm_initialized demo_state" by code_simp
  have b2: "\<not> g_vm_thread_started demo_state" by code_simp
  have b3: "hako_find_bytecode (Some ''main'') demo_state = Some 1" by code_simp
  from run_main_load_failure[OF b1 b2 b3, of 7] b1 b2 b3 show ?thesis by blast
qed

end
